theory Spec2Isabelle
  imports Complex_Main "HOL-Library.AList" "HOL-Library.Multiset"
begin

section \<open>Data model of \<^verbatim>\<open>src/index.js\<close>\<close>

text \<open>
  The sixteen message kinds that \<^verbatim>\<open>initializeMIDI\<close> subscribes to (the strings
  \<^verbatim>\<open>'noteon'\<close>, \<^verbatim>\<open>'noteoff'\<close>, \<^verbatim>\<open>'cc'\<close>, ...).
\<close>

datatype msg_type =
    Noteon | Noteoff | Cc | Program | ChannelAftertouch | PolyAftertouch | Pitch
  | Position | Mtc | Select | Clock | Start | Continue | Stop | Activesense | Reset

text \<open>
  The payload object \<^verbatim>\<open>msg\<close>. A field the object does not carry reads as
  \<^verbatim>\<open>undefined\<close> in the source; here it is \<open>None\<close>. The fields the program never
  reads are carried along in \<open>msg_rest\<close>.
\<close>

record midi_msg =
  msg_channel :: "int option"
  msg_note :: "int option"
  msg_velocity :: "int option"
  msg_controller :: "int option"
  msg_value :: "int option"
  msg_rest :: "(string \<times> int) list"

text \<open>One entry of \<^verbatim>\<open>recordedMessages\<close>: \<^verbatim>\<open>{ type, msg, timestamp }\<close>.\<close>

record recorded =
  rtype :: msg_type
  rmsg :: midi_msg
  timestamp :: int

text \<open>The global \<^verbatim>\<open>state\<close>: \<^verbatim>\<open>'listening'\<close>, \<^verbatim>\<open>'recording'\<close>, \<^verbatim>\<open>'playback'\<close>.\<close>

datatype app_state = Listening | Recording | Playback

section \<open>The encoder inside \<^verbatim>\<open>exportMIDI\<close>\<close>

text \<open>
  The value of \<^verbatim>\<open>activeNotes\<close> for one note number:
  \<^verbatim>\<open>{ startTime, velocity, channel }\<close>.
\<close>

record note_info =
  ni_startTime :: rat
  ni_velocity :: int
  ni_channel :: int

text \<open>
  What the encoder hands to the track, in call order: the argument of
  \<^verbatim>\<open>track.addNote\<close> (\<^verbatim>\<open>midi\<close>, \<^verbatim>\<open>time\<close>, \<^verbatim>\<open>duration\<close>, \<^verbatim>\<open>velocity\<close>,
  \<^verbatim>\<open>channel\<close>) or of \<^verbatim>\<open>track.addCC\<close> (\<^verbatim>\<open>number\<close>, \<^verbatim>\<open>value\<close>, \<^verbatim>\<open>time\<close>,
  \<^verbatim>\<open>channel\<close>). Times are seconds; the source computes them in double precision,
  the model in exact rationals.
\<close>

datatype track_item =
    AddNote "int option" rat rat int int
  | AddCC "int option" "int option" rat int

text \<open>
  The local state of the \<^verbatim>\<open>forEach\<close> loop: the calls made on \<^verbatim>\<open>track\<close> so far
  and the \<^verbatim>\<open>Map\<close> \<^verbatim>\<open>activeNotes\<close>. A JavaScript \<^verbatim>\<open>Map\<close> iterates in
  insertion order, so it is an association list: \<^verbatim>\<open>set\<close> is \<open>AList.update\<close>
  (in place for a key that is present, at the end otherwise), \<^verbatim>\<open>delete\<close> is
  \<open>AList.delete\<close>, \<^verbatim>\<open>has\<close>/\<^verbatim>\<open>get\<close> are \<open>map_of\<close>.
\<close>

record encoder =
  track :: "track_item list"
  activeNotes :: "(int option \<times> note_info) list"

text \<open>\<^verbatim>\<open>x || d\<close> on a number that may be missing: \<^verbatim>\<open>undefined\<close> and \<^verbatim>\<open>0\<close> are falsy.\<close>

definition js_or :: "int option \<Rightarrow> int \<Rightarrow> int" where
  "js_or x d = (case x of None \<Rightarrow> d | Some v \<Rightarrow> if v = 0 then d else v)"

text \<open>\<^verbatim>\<open>x > 0\<close>: false for \<^verbatim>\<open>undefined\<close>.\<close>

definition js_gt0 :: "int option \<Rightarrow> bool" where
  "js_gt0 x = (case x of None \<Rightarrow> False | Some v \<Rightarrow> 0 < v)"

text \<open>\<^verbatim>\<open>Math.max(0.001, t - startTime)\<close>.\<close>

definition min_duration :: "rat \<Rightarrow> rat \<Rightarrow> rat" where
  "min_duration t startTime = max (1 / 1000) (t - startTime)"

text \<open>The body of \<^verbatim>\<open>recordedMessages.forEach((recorded) => ...)\<close>, lines 351 to 407.\<close>

definition process_message :: "int \<Rightarrow> recorded \<Rightarrow> encoder \<Rightarrow> encoder" where
  "process_message startTime r e =
     (let time = of_int (timestamp r - startTime) / 1000 in
      if rtype r = Noteon \<and> js_gt0 (msg_velocity (rmsg r)) then
        (let noteNum = msg_note (rmsg r);
             channel = js_or (msg_channel (rmsg r)) 0;
             velocity = js_or (msg_velocity (rmsg r)) 100;
             e1 = (case map_of (activeNotes e) noteNum of
                     Some noteInfo \<Rightarrow>
                       e\<lparr>track := track e @
                            [AddNote noteNum (ni_startTime noteInfo)
                               (min_duration time (ni_startTime noteInfo))
                               (ni_velocity noteInfo) channel],
                         activeNotes := AList.delete noteNum (activeNotes e)\<rparr>
                   | None \<Rightarrow> e)
         in e1\<lparr>activeNotes := AList.update noteNum
                  \<lparr>ni_startTime = time, ni_velocity = velocity, ni_channel = channel\<rparr>
                  (activeNotes e1)\<rparr>)
      else if rtype r = Noteoff \<or> (rtype r = Noteon \<and> msg_velocity (rmsg r) = Some 0) then
        (let noteNum = msg_note (rmsg r) in
         case map_of (activeNotes e) noteNum of
           Some noteInfo \<Rightarrow>
             e\<lparr>track := track e @
                  [AddNote noteNum (ni_startTime noteInfo)
                     (min_duration time (ni_startTime noteInfo))
                     (ni_velocity noteInfo) (ni_channel noteInfo)],
               activeNotes := AList.delete noteNum (activeNotes e)\<rparr>
         | None \<Rightarrow> e)
      else if rtype r = Cc then
        e\<lparr>track := track e @
             [AddCC (msg_controller (rmsg r)) (msg_value (rmsg r)) time
                (js_or (msg_channel (rmsg r)) 0)]\<rparr>
      else e)"

text \<open>The body of \<^verbatim>\<open>activeNotes.forEach((noteInfo, noteNum) => ...)\<close>, lines 411 to 421.\<close>

definition close_remaining :: "rat \<Rightarrow> int option \<times> note_info \<Rightarrow> track_item" where
  "close_remaining endTime p =
     AddNote (fst p) (ni_startTime (snd p)) (min_duration endTime (ni_startTime (snd p)))
       (ni_velocity (snd p)) (ni_channel (snd p))"

text \<open>The first loop, run over the whole log from an empty track and an empty \<^verbatim>\<open>Map\<close>.\<close>

definition encode_loop :: "int \<Rightarrow> recorded list \<Rightarrow> encoder" where
  "encode_loop startTime msgs =
     fold (process_message startTime) msgs \<lparr>track = [], activeNotes = []\<rparr>"

text \<open>
  Lines 334 to 421 of \<^verbatim>\<open>exportMIDI\<close>: \<open>None\<close> is the early return on an empty log,
  otherwise the calls made on the track, in order.
\<close>

definition exportMIDI_track :: "recorded list \<Rightarrow> track_item list option" where
  "exportMIDI_track msgs =
     (case msgs of
        [] \<Rightarrow> None
      | r0 # _ \<Rightarrow>
          (let startTime = timestamp r0;
               totalDuration = timestamp (last msgs) - startTime;
               e = encode_loop startTime msgs;
               endTime = of_int totalDuration / 1000
           in Some (track e @ map (close_remaining endTime) (activeNotes e))))"

subsection \<open>Vocabulary for the encoder's properties\<close>

text \<open>
  An event opens a note when it takes the first branch of the loop body (line 355); a
  track item is a note of pitch \<open>k\<close> when it is an \<^verbatim>\<open>addNote\<close> call with
  \<^verbatim>\<open>midi\<close> equal to \<open>k\<close>.
\<close>

definition is_open :: "recorded \<Rightarrow> bool" where
  "is_open r = (rtype r = Noteon \<and> js_gt0 (msg_velocity (rmsg r)))"

definition is_note_of :: "int option \<Rightarrow> track_item \<Rightarrow> bool" where
  "is_note_of k it = (case it of AddNote n _ _ _ _ \<Rightarrow> n = k | AddCC _ _ _ _ \<Rightarrow> False)"

definition notes_of :: "int option \<Rightarrow> track_item list \<Rightarrow> track_item list" where
  "notes_of k tr = filter (is_note_of k) tr"

definition opens_of :: "int option \<Rightarrow> recorded list \<Rightarrow> recorded list" where
  "opens_of k msgs = filter (\<lambda>r. is_open r \<and> msg_note (rmsg r) = k) msgs"

definition duration_ok :: "track_item \<Rightarrow> bool" where
  "duration_ok it = (case it of AddNote _ _ d _ _ \<Rightarrow> 1 / 1000 \<le> d | AddCC _ _ _ _ \<Rightarrow> True)"

definition active_count :: "int option \<Rightarrow> encoder \<Rightarrow> nat" where
  "active_count k e = (if k \<in> fst ` set (activeNotes e) then 1 else 0)"

text \<open>
  The notes a log calls for, read off the log alone after steps 3, 4 and 7 of the
  encoder's description. An event closes a note when it takes the second branch of the
  loop body (lines 381 and 382). A note opened by the event \<open>r\<close> runs until the next
  later event that opens or closes the same pitch and, when the rest of the log holds no
  such event, until \<open>end_s\<close>; its duration has the 1 ms floor. A span is the pitch,
  start, duration and velocity of a note (the channel is left to C4).
\<close>

definition event_time :: "int \<Rightarrow> recorded \<Rightarrow> rat" where
  "event_time t0 r = of_int (timestamp r - t0) / 1000"

definition end_seconds :: "recorded list \<Rightarrow> rat" where
  "end_seconds msgs = of_int (timestamp (last msgs) - timestamp (hd msgs)) / 1000"

definition is_close :: "recorded \<Rightarrow> bool" where
  "is_close r =
     (\<not> is_open r \<and>
      (rtype r = Noteoff \<or> (rtype r = Noteon \<and> msg_velocity (rmsg r) = Some 0)))"

definition touches :: "int option \<Rightarrow> recorded \<Rightarrow> bool" where
  "touches k r = ((is_open r \<or> is_close r) \<and> msg_note (rmsg r) = k)"

definition closing_time :: "int \<Rightarrow> rat \<Rightarrow> int option \<Rightarrow> recorded list \<Rightarrow> rat" where
  "closing_time t0 end_s k rest =
     (case find (touches k) rest of None \<Rightarrow> end_s | Some r' \<Rightarrow> event_time t0 r')"

type_synonym span = "int option \<times> rat \<times> rat \<times> int"

definition opened_span :: "int \<Rightarrow> rat \<Rightarrow> recorded \<Rightarrow> recorded list \<Rightarrow> span" where
  "opened_span t0 end_s r rest =
     (msg_note (rmsg r), event_time t0 r,
      max (1 / 1000) (closing_time t0 end_s (msg_note (rmsg r)) rest - event_time t0 r),
      js_or (msg_velocity (rmsg r)) 100)"

fun expected_spans :: "int \<Rightarrow> rat \<Rightarrow> recorded list \<Rightarrow> span list" where
  "expected_spans t0 end_s [] = []"
| "expected_spans t0 end_s (r # rest) =
     (if is_open r then [opened_span t0 end_s r rest] else []) @ expected_spans t0 end_s rest"

text \<open>The spans of the \<^verbatim>\<open>addNote\<close> calls of a track, in call order.\<close>

fun note_spans :: "track_item list \<Rightarrow> span list" where
  "note_spans [] = []"
| "note_spans (AddNote k s d v c # tr) = (k, s, d, v) # note_spans tr"
| "note_spans (AddCC n x t c # tr) = note_spans tr"

text \<open>
  The span that an entry of \<^verbatim>\<open>activeNotes\<close> becomes when the events \<open>rest\<close> are still
  to be processed.
\<close>

definition pending_span :: "int \<Rightarrow> rat \<Rightarrow> recorded list \<Rightarrow> int option \<times> note_info \<Rightarrow> span" where
  "pending_span t0 end_s rest p =
     (fst p, ni_startTime (snd p),
      max (1 / 1000) (closing_time t0 end_s (fst p) rest - ni_startTime (snd p)),
      ni_velocity (snd p))"

section \<open>The program state and the event loop\<close>

text \<open>
  What a pending timer runs when it fires: the arrow function of line 294, which has
  captured \<^verbatim>\<open>recorded\<close> and \<^verbatim>\<open>index\<close>, or the one of line 306.
\<close>

datatype callback = Emit nat recorded | Complete

text \<open>The lines the program prints, with the values they interpolate.\<close>

datatype console_line =
    Log_Recording
  | Log_RecordingStopped int nat
  | Log_Listening
  | Warn_AlreadyPlaying
  | Warn_NoRecordedToPlay
  | Log_PlayingBack nat
  | Err_PlayingMessage nat
  | Log_PlaybackComplete
  | Log_PlaybackStopped
  | Warn_NoRecordedToExport
  | Log_Exported int

text \<open>
  The module-level variables of lines 11 to 17, followed by the part of the environment
  they interact with: the timers pending in the event loop (handle, delay in
  milliseconds, callback) and the next fresh handle, the messages \<^verbatim>\<open>output.send\<close> has
  accepted, the console, the files written, and the number of times the wall clock has
  been read.
\<close>

record world =
  state :: app_state
  recordedMessages :: "recorded list"
  recordingStartTime :: "int option"
  playbackTimeouts :: "nat list"
  playbackCompleteTimeout :: "nat option"
  timers :: "(nat \<times> int \<times> callback) list"
  next_handle :: nat
  sent :: "(msg_type \<times> midi_msg) list"
  console :: "console_line list"
  files :: "(int \<times> track_item list) list"
  reads :: nat

definition initial_world :: world where
  "initial_world =
     \<lparr>state = Listening, recordedMessages = [], recordingStartTime = None,
      playbackTimeouts = [], playbackCompleteTimeout = None,
      timers = [], next_handle = 0, sent = [], console = [], files = [], reads = 0\<rparr>"

text \<open>
  \<^verbatim>\<open>Date.now()\<close>: the wall clock is a parameter \<open>clk\<close>, the value of its \<open>k\<close>-th
  reading; every call consumes one reading.
\<close>

definition Date_now :: "(nat \<Rightarrow> int) \<Rightarrow> world \<Rightarrow> int \<times> world" where
  "Date_now clk w = (clk (reads w), w\<lparr>reads := Suc (reads w)\<rparr>)"

text \<open>\<^verbatim>\<open>recordingStartTime\<close> as a number: \<^verbatim>\<open>null\<close> converts to \<^verbatim>\<open>0\<close>.\<close>

definition start_number :: "world \<Rightarrow> int" where
  "start_number w = (case recordingStartTime w of None \<Rightarrow> 0 | Some t \<Rightarrow> t)"

text \<open>\<^verbatim>\<open>setTimeout(cb, delay)\<close> and \<^verbatim>\<open>clearTimeout(h)\<close>.\<close>

definition setTimeout :: "callback \<Rightarrow> int \<Rightarrow> world \<Rightarrow> nat \<times> world" where
  "setTimeout cb delay w =
     (next_handle w,
      w\<lparr>timers := timers w @ [(next_handle w, delay, cb)],
        next_handle := Suc (next_handle w)\<rparr>)"

definition clearTimeout :: "nat \<Rightarrow> world \<Rightarrow> world" where
  "clearTimeout h w = w\<lparr>timers := filter (\<lambda>t. fst t \<noteq> h) (timers w)\<rparr>"

text \<open>\<^verbatim>\<open>recordMessage\<close>, lines 239 to 246.\<close>

definition recordMessage :: "(nat \<Rightarrow> int) \<Rightarrow> msg_type \<Rightarrow> midi_msg \<Rightarrow> world \<Rightarrow> world" where
  "recordMessage clk ty m w =
     (let (now, w1) = Date_now clk w;
          ts = now - start_number w1
      in w1\<lparr>recordedMessages :=
              recordedMessages w1 @ [\<lparr>rtype = ty, rmsg = m, timestamp = ts\<rparr>]\<rparr>)"

text \<open>\<^verbatim>\<open>startRecording\<close>, lines 249 to 257.\<close>

definition startRecording :: "(nat \<Rightarrow> int) \<Rightarrow> world \<Rightarrow> world" where
  "startRecording clk w =
     (if state w = Recording then w
      else
        (let (now, w1) = Date_now clk w
         in w1\<lparr>recordedMessages := [], recordingStartTime := Some now, state := Recording,
               console := console w1 @ [Log_Recording]\<rparr>))"

text \<open>\<^verbatim>\<open>handleMIDIMessage\<close>, lines 209 to 236.\<close>

definition handleMIDIMessage :: "(nat \<Rightarrow> int) \<Rightarrow> msg_type \<Rightarrow> midi_msg \<Rightarrow> world \<Rightarrow> world" where
  "handleMIDIMessage clk ty m w =
     (if state w = Listening then
        (if ty = Noteon then recordMessage clk ty m (startRecording clk w)
         else if ty = Cc \<and> msg_controller m = Some 64 then
           recordMessage clk ty m (startRecording clk w)
         else w)
      else if state w = Recording then recordMessage clk ty m w
      else if state w = Playback then
        (if ty = Noteon then recordMessage clk ty m (startRecording clk w)
         else if ty = Cc \<and> msg_controller m = Some 64 then
           recordMessage clk ty m (startRecording clk w)
         else w)
      else w)"

text \<open>\<^verbatim>\<open>stopRecording\<close>, lines 260 to 267.\<close>

definition stopRecording :: "(nat \<Rightarrow> int) \<Rightarrow> world \<Rightarrow> world" where
  "stopRecording clk w =
     (if state w \<noteq> Recording then w
      else
        (let w1 = w\<lparr>state := Listening\<rparr>;
             (now, w2) = Date_now clk w1
         in w2\<lparr>console := console w2 @
                  [Log_RecordingStopped (now - start_number w2) (length (recordedMessages w2)),
                   Log_Listening]\<rparr>))"

text \<open>
  The block that \<^verbatim>\<open>playBack\<close> (lines 285 to 290) and \<^verbatim>\<open>stopPlayback\<close> (lines 320 to
  325) both contain: clear every handle in \<^verbatim>\<open>playbackTimeouts\<close>, empty the array,
  and clear \<^verbatim>\<open>playbackCompleteTimeout\<close> when it is set.
\<close>

definition clear_playback_timers :: "world \<Rightarrow> world" where
  "clear_playback_timers w =
     (let w1 = fold clearTimeout (playbackTimeouts w) w;
          w2 = w1\<lparr>playbackTimeouts := []\<rparr>
      in case playbackCompleteTimeout w2 of
           None \<Rightarrow> w2
         | Some h \<Rightarrow> (clearTimeout h w2)\<lparr>playbackCompleteTimeout := None\<rparr>)"

text \<open>The \<^verbatim>\<open>forEach((recorded, index) => ...)\<close> of lines 293 to 302, from index \<open>index\<close> on.\<close>

fun schedule_messages :: "nat \<Rightarrow> recorded list \<Rightarrow> world \<Rightarrow> world" where
  "schedule_messages index [] w = w"
| "schedule_messages index (r # rs) w =
     (let (timeout, w1) = setTimeout (Emit index r) (timestamp r) w
      in schedule_messages (Suc index) rs
           (w1\<lparr>playbackTimeouts := playbackTimeouts w1 @ [timeout]\<rparr>))"

text \<open>\<^verbatim>\<open>playBack\<close>, lines 270 to 313.\<close>

definition playBack :: "world \<Rightarrow> world" where
  "playBack w =
     (if state w = Playback then w\<lparr>console := console w @ [Warn_AlreadyPlaying]\<rparr>
      else if recordedMessages w = [] then w\<lparr>console := console w @ [Warn_NoRecordedToPlay]\<rparr>
      else
        (let w1 = w\<lparr>state := Playback,
                    console := console w @ [Log_PlayingBack (length (recordedMessages w))]\<rparr>;
             w2 = clear_playback_timers w1;
             w3 = schedule_messages 0 (recordedMessages w2) w2;
             totalDuration = timestamp (last (recordedMessages w3));
             (h, w4) = setTimeout Complete (totalDuration + 100) w3
         in w4\<lparr>playbackCompleteTimeout := Some h\<rparr>))"

text \<open>\<^verbatim>\<open>stopPlayback\<close>, lines 316 to 330.\<close>

definition stopPlayback :: "world \<Rightarrow> world" where
  "stopPlayback w =
     (if state w \<noteq> Playback then w
      else
        (let w1 = clear_playback_timers w
         in w1\<lparr>state := Listening,
               console := console w1 @ [Log_PlaybackStopped, Log_Listening]\<rparr>))"

text \<open>
  \<^verbatim>\<open>exportMIDI\<close>, lines 333 to 437, with a write that succeeds; the file name is
  derived from a reading of the clock.
\<close>

definition exportMIDI :: "(nat \<Rightarrow> int) \<Rightarrow> world \<Rightarrow> world" where
  "exportMIDI clk w =
     (case exportMIDI_track (recordedMessages w) of
        None \<Rightarrow> w\<lparr>console := console w @ [Warn_NoRecordedToExport]\<rparr>
      | Some tr \<Rightarrow>
          (let (now, w1) = Date_now clk w
           in w1\<lparr>files := files w1 @ [(now, tr)],
                 console := console w1 @ [Log_Exported now]\<rparr>))"

text \<open>
  The two timer callbacks. \<open>ok\<close> tells whether \<^verbatim>\<open>output.send\<close> returns normally; when
  it throws (a device error, or \<^verbatim>\<open>output\<close> still \<^verbatim>\<open>null\<close>) the \<^verbatim>\<open>catch\<close> of line 297
  prints the error.
\<close>

fun run_callback :: "callback \<Rightarrow> bool \<Rightarrow> world \<Rightarrow> world" where
  "run_callback (Emit index r) ok w =
     (if ok then w\<lparr>sent := sent w @ [(rtype r, rmsg r)]\<rparr>
      else w\<lparr>console := console w @ [Err_PlayingMessage index]\<rparr>)"
| "run_callback Complete ok w =
     w\<lparr>state := Listening,
       console := console w @ [Log_PlaybackComplete, Log_Listening],
       playbackTimeouts := [],
       playbackCompleteTimeout := None\<rparr>"

text \<open>
  The event loop fires the pending timer with handle \<open>h\<close>: the timer leaves the pending
  set and its callback runs. A handle that is not pending fires nothing.
\<close>

definition fire :: "nat \<Rightarrow> bool \<Rightarrow> world \<Rightarrow> world" where
  "fire h ok w =
     (case find (\<lambda>t. fst t = h) (timers w) of
        None \<Rightarrow> w
      | Some t \<Rightarrow>
          run_callback (snd (snd t)) ok (w\<lparr>timers := filter (\<lambda>t. fst t \<noteq> h) (timers w)\<rparr>))"

text \<open>
  The \<^verbatim>\<open>'data'\<close> handler of \<^verbatim>\<open>setupKeyboardInput\<close>, lines 448 to 506. The keys that
  end the process and the keys that drive the sheet viewer touch none of the variables
  above.
\<close>

definition handleKey :: "(nat \<Rightarrow> int) \<Rightarrow> string \<Rightarrow> world \<Rightarrow> world" where
  "handleKey clk key w =
     (if key = ''s'' \<or> key = ''S'' then
        (if state w = Recording then stopRecording clk w
         else if state w = Playback then stopPlayback w
         else w)
      else if key = ''p'' \<or> key = ''P'' then playBack w
      else if key = ''e'' \<or> key = ''E'' then exportMIDI clk w
      else w)"

text \<open>
  One stimulus of the run-to-completion loop: a message from the input device, a key,
  or a timer firing (with the outcome of the sink call it makes, if any).
\<close>

datatype stimulus = MidiIn msg_type midi_msg | KeyPress string | TimerFires nat bool

fun dispatch :: "(nat \<Rightarrow> int) \<Rightarrow> stimulus \<Rightarrow> world \<Rightarrow> world" where
  "dispatch clk (MidiIn ty m) w = handleMIDIMessage clk ty m w"
| "dispatch clk (KeyPress key) w = handleKey clk key w"
| "dispatch clk (TimerFires h ok) w = fire h ok w"

definition run :: "(nat \<Rightarrow> int) \<Rightarrow> stimulus list \<Rightarrow> world \<Rightarrow> world" where
  "run clk stims w = fold (dispatch clk) stims w"

subsection \<open>Vocabulary for the properties of replay\<close>

text \<open>
  The emission timers that the loop of lines 293 to 302 creates for the log \<open>rs\<close>,
  starting at handle \<open>h\<close> and index \<open>index\<close>.
\<close>

fun emit_timers :: "nat \<Rightarrow> nat \<Rightarrow> recorded list \<Rightarrow> (nat \<times> int \<times> callback) list" where
  "emit_timers h index [] = []"
| "emit_timers h index (r # rs) = (h, timestamp r, Emit index r) # emit_timers (Suc h) (Suc index) rs"

text \<open>
  The pending timers that the clearing block of \<^verbatim>\<open>playBack\<close> and \<^verbatim>\<open>stopPlayback\<close>
  leaves alone: those whose handle is neither in \<^verbatim>\<open>playbackTimeouts\<close> nor equal to
  \<^verbatim>\<open>playbackCompleteTimeout\<close>.
\<close>

definition kept_timers :: "world \<Rightarrow> (nat \<times> int \<times> callback) list" where
  "kept_timers w =
     filter (\<lambda>t. fst t \<notin> set (playbackTimeouts w) \<and> Some (fst t) \<noteq> playbackCompleteTimeout w)
       (timers w)"

text \<open>
  For a replay of the log \<open>rs\<close> whose \<open>k\<close>-th sink call succeeds exactly when the
  \<open>k\<close>-th entry of \<open>oks\<close> is true: the messages the sink accepts, the error lines
  printed, and the firing of the emission timers in the order of their handles (the
  order of their delays when the offsets do not decrease).
\<close>

fun delivered :: "recorded list \<Rightarrow> bool list \<Rightarrow> (msg_type \<times> midi_msg) list" where
  "delivered (r # rs) (ok # oks) = (if ok then [(rtype r, rmsg r)] else []) @ delivered rs oks"
| "delivered _ _ = []"

fun failures :: "nat \<Rightarrow> bool list \<Rightarrow> console_line list" where
  "failures index (ok # oks) = (if ok then [] else [Err_PlayingMessage index]) @ failures (Suc index) oks"
| "failures index [] = []"

fun fire_in_order :: "nat \<Rightarrow> bool list \<Rightarrow> stimulus list" where
  "fire_in_order h (ok # oks) = TimerFires h ok # fire_in_order (Suc h) oks"
| "fire_in_order h [] = []"

text \<open>Every pending timer has a handle that was already handed out.\<close>

definition timers_fresh :: "world \<Rightarrow> bool" where
  "timers_fresh w = list_all (\<lambda>t. fst t < next_handle w) (timers w)"

subsection \<open>Invariants of the reachable states\<close>

text \<open>
  The offsets in the log do not decrease and, while recording, none exceeds the time
  elapsed between the start of the take and the next reading of the clock.
\<close>

definition log_ordered :: "(nat \<Rightarrow> int) \<Rightarrow> world \<Rightarrow> bool" where
  "log_ordered clk w =
     (sorted (map timestamp (recordedMessages w)) \<and>
      (state w = Recording \<longrightarrow>
         list_all (\<lambda>r. timestamp r \<le> clk (reads w) - start_number w) (recordedMessages w)))"

section \<open>Sample inputs\<close>

definition note_msg :: "int \<Rightarrow> int \<Rightarrow> int \<Rightarrow> midi_msg" where
  "note_msg ch n v =
     \<lparr>msg_channel = Some ch, msg_note = Some n, msg_velocity = Some v,
      msg_controller = None, msg_value = None, msg_rest = []\<rparr>"

definition scenario_log :: "recorded list" where
  "scenario_log =
     [\<lparr>rtype = Noteon, rmsg = note_msg 0 60 100, timestamp = 0\<rparr>,
      \<lparr>rtype = Noteoff, rmsg = note_msg 0 60 0, timestamp = 500\<rparr>,
      \<lparr>rtype = Noteon, rmsg = note_msg 0 64 90, timestamp = 500\<rparr>,
      \<lparr>rtype = Noteoff, rmsg = note_msg 0 64 0, timestamp = 1200\<rparr>]"

definition dangling_log :: "recorded list" where
  "dangling_log = [\<lparr>rtype = Noteon, rmsg = note_msg 0 60 100, timestamp = 0\<rparr>]"

text \<open>
  Pitch 60 is struck and never released, pitch 64 is struck at 200 ms and released at
  700 ms, and the log ends with a pedal event at 1000 ms.
\<close>

definition sustained_log :: "recorded list" where
  "sustained_log =
     [\<lparr>rtype = Noteon, rmsg = note_msg 0 60 100, timestamp = 0\<rparr>,
      \<lparr>rtype = Noteon, rmsg = note_msg 0 64 90, timestamp = 200\<rparr>,
      \<lparr>rtype = Noteoff, rmsg = note_msg 0 64 0, timestamp = 700\<rparr>,
      \<lparr>rtype = Cc,
       rmsg = \<lparr>msg_channel = Some 0, msg_note = None, msg_velocity = None,
               msg_controller = Some 64, msg_value = Some 0, msg_rest = []\<rparr>,
       timestamp = 1000\<rparr>]"

definition retrigger_log :: "recorded list" where
  "retrigger_log =
     [\<lparr>rtype = Noteon, rmsg = note_msg 0 60 100, timestamp = 0\<rparr>,
      \<lparr>rtype = Noteon, rmsg = note_msg 1 60 90, timestamp = 500\<rparr>]"

definition no_velocity_log :: "recorded list" where
  "no_velocity_log =
     [\<lparr>rtype = Noteon,
       rmsg = \<lparr>msg_channel = None, msg_note = Some 60, msg_velocity = None,
               msg_controller = None, msg_value = None, msg_rest = []\<rparr>,
       timestamp = 0\<rparr>,
      \<lparr>rtype = Cc,
       rmsg = \<lparr>msg_channel = None, msg_note = None, msg_velocity = None,
               msg_controller = Some 64, msg_value = Some 127, msg_rest = []\<rparr>,
       timestamp = 100\<rparr>,
      \<lparr>rtype = Noteoff,
       rmsg = \<lparr>msg_channel = None, msg_note = Some 60, msg_velocity = None,
               msg_controller = None, msg_value = None, msg_rest = []\<rparr>,
       timestamp = 500\<rparr>]"

text \<open>
  A take of two messages recorded and stopped (\<open>take_trace\<close>), the same take while
  still recording (\<open>recording_trace\<close>), and a replay of it interrupted by a new NoteOn
  after the first emission (\<open>preempt_trace\<close>). \<open>demo_clock\<close> gives the clock readings
  these handlers make: 1000, 1000, 1500 and 2000 ms for the take, 3100 ms twice for the
  interrupting NoteOn, which arrives 100 ms after the replay began.
\<close>

definition demo_clock :: "nat \<Rightarrow> int" where
  "demo_clock k =
     (if k < 2 then 1000 else if k = 2 then 1500 else if k = 3 then 2000 else 3100)"

definition take_trace :: "stimulus list" where
  "take_trace =
     [MidiIn Noteon (note_msg 0 60 100),
      MidiIn Noteoff (note_msg 0 60 0),
      KeyPress ''s'']"

definition recording_trace :: "stimulus list" where
  "recording_trace =
     [MidiIn Noteon (note_msg 0 60 100),
      MidiIn Noteoff (note_msg 0 60 0)]"

definition take_log :: "recorded list" where
  "take_log =
     [\<lparr>rtype = Noteon, rmsg = note_msg 0 60 100, timestamp = 0\<rparr>,
      \<lparr>rtype = Noteoff, rmsg = note_msg 0 60 0, timestamp = 500\<rparr>]"

definition preempt_trace :: "stimulus list" where
  "preempt_trace =
     [MidiIn Noteon (note_msg 0 60 100),
      MidiIn Noteoff (note_msg 0 60 0),
      KeyPress ''s'',
      KeyPress ''p'',
      TimerFires 0 True,
      MidiIn Noteon (note_msg 0 62 80)]"

section \<open>The encoder: theorems\<close>

lemma min_duration_floor: "1 / 1000 \<le> min_duration t s"
  by (simp add: min_duration_def)

lemma min_duration_floor_scaled: "1 \<le> min_duration t s * 1000"
  using min_duration_floor [of t s] by simp

lemma map_of_Some_keys: "map_of al k = Some v \<Longrightarrow> k \<in> fst ` set al"
  by (metis map_of_eq_None_iff option.distinct(1))

lemma process_message_durations:
  "list_all duration_ok (track e) \<Longrightarrow> list_all duration_ok (track (process_message t0 r e))"
  by (auto simp: process_message_def Let_def duration_ok_def min_duration_floor_scaled
      split: option.splits)

lemma process_message_distinct:
  "distinct (map fst (activeNotes e)) \<Longrightarrow>
   distinct (map fst (activeNotes (process_message t0 r e)))"
  by (auto simp: process_message_def Let_def distinct_update distinct_delete
      split: option.splits)

lemma map_of_eq_None_keys: "map_of al k = None \<longleftrightarrow> k \<notin> fst ` set al"
  by (simp add: map_of_eq_None_iff)

lemma keys_delete: "fst ` set (AList.delete k al) = fst ` set al - {k}"
  by (auto simp: AList.delete_eq)

lemma process_message_count:
  "length (notes_of k (track (process_message t0 r e))) + active_count k (process_message t0 r e)
   = length (notes_of k (track e)) + active_count k e
     + (if is_open r \<and> msg_note (rmsg r) = k then 1 else 0)"
proof (cases "is_open r")
  case True
  then show ?thesis
    by (auto simp: process_message_def Let_def notes_of_def is_note_of_def active_count_def
        is_open_def dom_update keys_delete map_of_eq_None_keys
        split: option.splits dest: map_of_Some_keys)
next
  case False
  then show ?thesis
    apply (auto simp: process_message_def Let_def notes_of_def is_note_of_def active_count_def
        is_open_def dom_update keys_delete map_of_eq_None_keys
        split: option.splits dest: map_of_Some_keys)
    done
qed


lemma fold_process_durations:
  "list_all duration_ok (track e) \<Longrightarrow>
   list_all duration_ok (track (fold (process_message t0) msgs e))"
  by (induction msgs arbitrary: e) (simp_all add: process_message_durations)

lemma fold_process_distinct:
  "distinct (map fst (activeNotes e)) \<Longrightarrow>
   distinct (map fst (activeNotes (fold (process_message t0) msgs e)))"
  by (induction msgs arbitrary: e) (simp_all add: process_message_distinct)

lemma fold_process_count:
  "length (notes_of k (track (fold (process_message t0) msgs e)))
     + active_count k (fold (process_message t0) msgs e)
   = length (notes_of k (track e)) + active_count k e + length (opens_of k msgs)"
proof (induction msgs arbitrary: e)
  case Nil
  show ?case by (simp add: opens_of_def)
next
  case (Cons r rs)
  have "length (notes_of k (track (fold (process_message t0) (r # rs) e)))
          + active_count k (fold (process_message t0) (r # rs) e)
        = length (notes_of k (track (process_message t0 r e)))
          + active_count k (process_message t0 r e) + length (opens_of k rs)"
    using Cons.IH [of "process_message t0 r e"] by simp
  also have "\<dots> = length (notes_of k (track e)) + active_count k e
          + (if is_open r \<and> msg_note (rmsg r) = k then 1 else 0) + length (opens_of k rs)"
    by (simp add: process_message_count)
  also have "\<dots> = length (notes_of k (track e)) + active_count k e + length (opens_of k (r # rs))"
    by (simp add: opens_of_def)
  finally show ?case .
qed

lemma is_note_of_close_remaining: "is_note_of k (close_remaining endTime p) = (fst p = k)"
  by (simp add: is_note_of_def close_remaining_def)

lemma distinct_key_count:
  "distinct (map fst al) \<Longrightarrow>
   length (filter (\<lambda>p. fst p = k) al) = (if k \<in> fst ` set al then 1 else 0)"
  by (induction al) (auto simp: image_iff)

lemma closed_remaining_count:
  assumes "distinct (map fst al)"
  shows "length (notes_of k (map (close_remaining endTime) al))
           = (if k \<in> fst ` set al then 1 else 0)"
proof -
  have "notes_of k (map (close_remaining endTime) al)
          = map (close_remaining endTime) (filter (\<lambda>p. fst p = k) al)"
    by (simp add: notes_of_def filter_map comp_def is_note_of_close_remaining)
  then show ?thesis
    using distinct_key_count [OF assms, of k] by simp
qed

lemma closed_remaining_durations:
  "list_all duration_ok (map (close_remaining endTime) al)"
  by (induction al) (simp_all add: duration_ok_def close_remaining_def min_duration_floor_scaled)

text \<open>
  C3. Encoding the log NoteOn(60, velocity 100, 0 ms), NoteOff(60, 500 ms),
  NoteOn(64, velocity 90, 500 ms), NoteOff(64, 1200 ms) adds exactly two notes to the
  track: pitch 60 from 0 s for 0.5 s with velocity 100, and pitch 64 from 0.5 s for
  0.7 s with velocity 90.
\<close>

theorem encode_scenario_two_notes:
  "exportMIDI_track scenario_log =
     Some [AddNote (Some 60) 0 (1 / 2) 100 0, AddNote (Some 64) (1 / 2) (7 / 10) 90 0]"
  by (simp add: exportMIDI_track_def scenario_log_def encode_loop_def process_message_def
      note_msg_def js_gt0_def js_or_def min_duration_def close_remaining_def
      AList.delete_eq)


text \<open>
  C4. A NoteOn with velocity above 0 for a pitch that is already active first closes the
  earlier note, from its start to the current time with the 1 ms floor and with the
  earlier note's velocity, and then opens a new entry with the new event's velocity and
  channel. The closing record carries the channel of the new event (line 370), not the
  one stored for the earlier note: pitch 60 opened on channel 0 and struck again on
  channel 1 is closed as a note on channel 1.
\<close>

theorem retrigger_closes_on_new_channel:
  "exportMIDI_track retrigger_log =
     Some [AddNote (Some 60) 0 (1 / 2) 100 1, AddNote (Some 60) (1 / 2) (1 / 1000) 90 1]"
  by (simp add: exportMIDI_track_def retrigger_log_def encode_loop_def process_message_def
      note_msg_def js_gt0_def js_or_def min_duration_def close_remaining_def
      AList.delete_eq Let_def)

text \<open>
  C8. A missing channel reads as channel 0 in the records the encoder emits. A missing
  velocity is never replaced by 100: the test \<^verbatim>\<open>velocity > 0\<close> of line 355 is false
  for it, so a NoteOn without velocity opens no note, and the later NoteOff of the same
  pitch closes nothing. The log below (NoteOn 60, sustain pedal, NoteOff 60, all without
  channel and velocity) yields the pedal event on channel 0 and no note.
\<close>

theorem noteon_without_velocity_dropped:
  "exportMIDI_track no_velocity_log = Some [AddCC (Some 64) (Some 127) (1 / 10) 0]"
  by (simp add: exportMIDI_track_def no_velocity_log_def encode_loop_def process_message_def
      js_gt0_def js_or_def min_duration_def close_remaining_def Let_def)

lemma note_spans_append: "note_spans (xs @ ys) = note_spans xs @ note_spans ys"
  by (induction xs rule: note_spans.induct) simp_all

lemma note_spans_closing:
  "note_spans (map (close_remaining end_s) al) = map (pending_span t0 end_s []) al"
  by (induction al)
     (simp_all add: close_remaining_def pending_span_def closing_time_def min_duration_def)

lemma pending_span_untouched:
  "\<not> touches (fst p) r \<Longrightarrow> pending_span t0 end_s (r # rs) p = pending_span t0 end_s rs p"
  by (simp add: pending_span_def closing_time_def)

lemma pending_span_touched:
  "touches (fst p) r \<Longrightarrow>
   pending_span t0 end_s (r # rs) p =
     (fst p, ni_startTime (snd p), min_duration (event_time t0 r) (ni_startTime (snd p)),
      ni_velocity (snd p))"
  by (simp add: pending_span_def closing_time_def min_duration_def)

lemma pending_spans_untouched:
  assumes "\<forall>p\<in>set al. \<not> touches (fst p) r"
  shows "image_mset (pending_span t0 end_s (r # rs)) (mset al)
           = image_mset (pending_span t0 end_s rs) (mset al)"
  using assms by (intro image_mset_cong) (simp add: pending_span_untouched)

lemma update_absent: "k \<notin> fst ` set al \<Longrightarrow> AList.update k v al = al @ [(k, v)]"
  by (induction al) auto

lemma mset_delete_present:
  "distinct (map fst al) \<Longrightarrow> map_of al k = Some v \<Longrightarrow>
   mset al = add_mset (k, v) (mset (AList.delete k al))"
proof (induction al)
  case Nil
  then show ?case by simp
next
  case (Cons p ps)
  show ?case
  proof (cases "fst p = k")
    case True
    have "k \<notin> fst ` set ps" using Cons.prems(1) True by auto
    then have "AList.delete k ps = ps"
      by (force simp: AList.delete_eq filter_id_conv image_iff)
    moreover have "p = (k, v)" using Cons.prems(2) True by (cases p) auto
    ultimately show ?thesis by (simp add: AList.delete_eq)
  next
    case False
    then have "map_of ps k = Some v" using Cons.prems(2) by (cases p) (auto split: if_splits)
    with Cons.IH Cons.prems(1) have "mset ps = add_mset (k, v) (mset (AList.delete k ps))"
      by simp
    then show ?thesis using False by (cases p) (auto simp: AList.delete_eq)
  qed
qed

lemma delete_keys_differ: "p \<in> set (AList.delete k al) \<Longrightarrow> fst p \<noteq> k"
  by (auto simp: AList.delete_eq)

lemma open_not_close: "is_open r \<Longrightarrow> \<not> is_close r"
  by (simp add: is_close_def)

lemma absent_untouched:
  "k \<notin> fst ` set al \<Longrightarrow> msg_note (rmsg r) = k \<Longrightarrow> \<forall>p\<in>set al. \<not> touches (fst p) r"
  by (auto simp: touches_def)

lemma process_message_spans:
  assumes dist: "distinct (map fst (activeNotes e))"
  shows "mset (note_spans (track (process_message t0 r e)))
           + image_mset (pending_span t0 end_s rs) (mset (activeNotes (process_message t0 r e)))
         = mset (note_spans (track e))
           + image_mset (pending_span t0 end_s (r # rs)) (mset (activeNotes e))
           + mset (if is_open r then [opened_span t0 end_s r rs] else [])"
proof -
  define k where "k = msg_note (rmsg r)"
  define al where "al = activeNotes e"
  define tm where "tm = event_time t0 r"
  have dal: "distinct (map fst al)" using dist by (simp add: al_def)
  consider (open_new) "is_open r" "map_of al k = None"
    | (open_again) ni where "is_open r" "map_of al k = Some ni"
    | (close_hit) ni where "is_close r" "map_of al k = Some ni"
    | (close_miss) "is_close r" "map_of al k = None"
    | (other) "\<not> is_open r" "\<not> is_close r"
    by (cases "map_of al k") (auto simp: open_not_close)
  then show ?thesis
  proof cases
    case open_new
    have absent: "k \<notin> fst ` set al"
      using open_new(2) by (simp add: map_of_eq_None_keys)
    have pm: "process_message t0 r e =
                e\<lparr>activeNotes := al @ [(k, \<lparr>ni_startTime = tm,
                     ni_velocity = js_or (msg_velocity (rmsg r)) 100,
                     ni_channel = js_or (msg_channel (rmsg r)) 0\<rparr>)]\<rparr>"
      using open_new absent
      by (simp add: process_message_def is_open_def k_def [symmetric] al_def [symmetric]
          tm_def event_time_def Let_def update_absent)
    have same: "image_mset (pending_span t0 end_s (r # rs)) (mset al)
                  = image_mset (pending_span t0 end_s rs) (mset al)"
      by (rule pending_spans_untouched) (use absent in \<open>auto simp: touches_def k_def\<close>)
    show ?thesis
      using open_new(1)
      by (simp add: pm same al_def [symmetric] pending_span_def opened_span_def
          k_def [symmetric] tm_def)
  next
    case open_again
    have split: "mset al = add_mset (k, ni) (mset (AList.delete k al))"
      by (rule mset_delete_present [OF dal open_again(2)])
    have absent: "k \<notin> fst ` set (AList.delete k al)"
      by (simp add: keys_delete)
    have pm: "process_message t0 r e =
                e\<lparr>track := track e @
                     [AddNote k (ni_startTime ni) (min_duration tm (ni_startTime ni))
                        (ni_velocity ni) (js_or (msg_channel (rmsg r)) 0)],
                  activeNotes := AList.delete k al @ [(k, \<lparr>ni_startTime = tm,
                     ni_velocity = js_or (msg_velocity (rmsg r)) 100,
                     ni_channel = js_or (msg_channel (rmsg r)) 0\<rparr>)]\<rparr>"
      using open_again absent
      by (simp add: process_message_def is_open_def k_def [symmetric] al_def [symmetric]
          tm_def event_time_def Let_def update_absent)
    have same: "image_mset (pending_span t0 end_s (r # rs)) (mset (AList.delete k al))
                  = image_mset (pending_span t0 end_s rs) (mset (AList.delete k al))"
      by (rule pending_spans_untouched)
         (use absent in \<open>auto simp: touches_def k_def dest: delete_keys_differ\<close>)
    have hit: "pending_span t0 end_s (r # rs) (k, ni)
                 = (k, ni_startTime ni, min_duration tm (ni_startTime ni), ni_velocity ni)"
      using open_again(1) by (simp add: pending_span_touched touches_def k_def tm_def)
    have newp: "pending_span t0 end_s rs (k, \<lparr>ni_startTime = tm,
                     ni_velocity = js_or (msg_velocity (rmsg r)) 100,
                     ni_channel = js_or (msg_channel (rmsg r)) 0\<rparr>)
                 = opened_span t0 end_s r rs"
      by (simp add: pending_span_def opened_span_def k_def tm_def)
    show ?thesis
      using open_again(1)
      by (simp add: pm al_def [symmetric] split same hit newp note_spans_append)
  next
    case close_hit
    have nopen: "\<not> is_open r" using close_hit(1) by (simp add: is_close_def)
    have cond: "rtype r = Noteoff \<or> (rtype r = Noteon \<and> msg_velocity (rmsg r) = Some 0)"
      using close_hit(1) by (simp add: is_close_def)
    have split: "mset al = add_mset (k, ni) (mset (AList.delete k al))"
      by (rule mset_delete_present [OF dal close_hit(2)])
    have pm: "process_message t0 r e =
                e\<lparr>track := track e @
                     [AddNote k (ni_startTime ni) (min_duration tm (ni_startTime ni))
                        (ni_velocity ni) (ni_channel ni)],
                  activeNotes := AList.delete k al\<rparr>"
      using nopen cond close_hit(2)
      by (auto simp: process_message_def is_open_def k_def [symmetric] al_def [symmetric]
          tm_def event_time_def Let_def)
    have same: "image_mset (pending_span t0 end_s (r # rs)) (mset (AList.delete k al))
                  = image_mset (pending_span t0 end_s rs) (mset (AList.delete k al))"
      by (rule pending_spans_untouched)
         (auto simp: touches_def k_def dest: delete_keys_differ)
    have hit: "pending_span t0 end_s (r # rs) (k, ni)
                 = (k, ni_startTime ni, min_duration tm (ni_startTime ni), ni_velocity ni)"
      using close_hit(1) by (simp add: pending_span_touched touches_def k_def tm_def)
    show ?thesis
      using nopen
      by (simp add: pm al_def [symmetric] split same hit note_spans_append)
  next
    case close_miss
    have nopen: "\<not> is_open r" using close_miss(1) by (simp add: is_close_def)
    have cond: "rtype r = Noteoff \<or> (rtype r = Noteon \<and> msg_velocity (rmsg r) = Some 0)"
      using close_miss(1) by (simp add: is_close_def)
    have absent: "k \<notin> fst ` set al"
      using close_miss(2) by (simp add: map_of_eq_None_keys)
    have pm: "process_message t0 r e = e"
      using nopen cond close_miss(2)
      by (auto simp: process_message_def is_open_def k_def [symmetric] al_def [symmetric] Let_def)
    have same: "image_mset (pending_span t0 end_s (r # rs)) (mset al)
                  = image_mset (pending_span t0 end_s rs) (mset al)"
      by (rule pending_spans_untouched) (use absent in \<open>auto simp: touches_def k_def\<close>)
    show ?thesis
      using nopen by (simp add: pm al_def [symmetric] same)
  next
    case other
    have same: "image_mset (pending_span t0 end_s (r # rs)) (mset al)
                  = image_mset (pending_span t0 end_s rs) (mset al)"
      by (rule pending_spans_untouched) (use other in \<open>simp add: touches_def\<close>)
    have tr: "note_spans (track (process_message t0 r e)) = note_spans (track e)"
      using other
      by (auto simp: process_message_def is_open_def is_close_def Let_def note_spans_append)
    have ac: "activeNotes (process_message t0 r e) = al"
      using other
      by (auto simp: process_message_def is_open_def is_close_def Let_def al_def)
    show ?thesis
      using other(1) by (simp add: tr ac same al_def [symmetric])
  qed
qed

lemma fold_process_spans:
  "distinct (map fst (activeNotes e)) \<Longrightarrow>
   mset (note_spans (track (fold (process_message t0) msgs e)))
     + image_mset (pending_span t0 end_s []) (mset (activeNotes (fold (process_message t0) msgs e)))
   = mset (note_spans (track e))
     + image_mset (pending_span t0 end_s msgs) (mset (activeNotes e))
     + mset (expected_spans t0 end_s msgs)"
proof (induction msgs arbitrary: e)
  case Nil
  show ?case by simp
next
  case (Cons r rs)
  have d1: "distinct (map fst (activeNotes (process_message t0 r e)))"
    using Cons.prems by (rule process_message_distinct)
  have "mset (note_spans (track (fold (process_message t0) (r # rs) e)))
          + image_mset (pending_span t0 end_s [])
              (mset (activeNotes (fold (process_message t0) (r # rs) e)))
        = mset (note_spans (track (process_message t0 r e)))
          + image_mset (pending_span t0 end_s rs) (mset (activeNotes (process_message t0 r e)))
          + mset (expected_spans t0 end_s rs)"
    using Cons.IH [OF d1] by simp
  also have "\<dots> = mset (note_spans (track e))
          + image_mset (pending_span t0 end_s (r # rs)) (mset (activeNotes e))
          + mset (if is_open r then [opened_span t0 end_s r rs] else [])
          + mset (expected_spans t0 end_s rs)"
    by (simp only: process_message_spans [OF Cons.prems])
  also have "\<dots> = mset (note_spans (track e))
          + image_mset (pending_span t0 end_s (r # rs)) (mset (activeNotes e))
          + mset (expected_spans t0 end_s (r # rs))"
    by simp
  finally show ?case .
qed

lemma opened_span_expected:
  "is_open r \<Longrightarrow> opened_span t0 end_s r rest \<in> set (expected_spans t0 end_s (pre @ r # rest))"
  by (induction pre) simp_all

lemma sustained_track:
  "exportMIDI_track sustained_log =
     Some [AddNote (Some 64) (1 / 5) (1 / 2) 90 0, AddCC (Some 64) (Some 0) 1 0,
           AddNote (Some 60) 0 1 100 0]"
  by (simp add: exportMIDI_track_def sustained_log_def encode_loop_def process_message_def
      note_msg_def js_gt0_def js_or_def min_duration_def close_remaining_def
      AList.delete_eq Let_def)

lemma dangling_track:
  "exportMIDI_track dangling_log = Some [AddNote (Some 60) 0 (1 / 1000) 100 0]"
  by (simp add: exportMIDI_track_def dangling_log_def encode_loop_def process_message_def
      note_msg_def js_gt0_def js_or_def min_duration_def close_remaining_def Let_def)

text \<open>
  C5. For every non-empty log the encoder returns a track with no unterminated note.
  Every note lasts at least 0.001 s. The notes of the track are, as a multiset of spans,
  exactly the notes the log calls for: each event that opens a note yields one note
  that starts at that event and lasts, with the 1 ms floor, until the next event that
  opens or closes the same pitch. In particular a note that no later event opens again
  or closes is in the track with duration \<open>max 0.001 (end_s - start)\<close>, where \<open>end_s\<close>
  is the last offset minus the first, divided by 1000. These notes are the entries left
  in \<^verbatim>\<open>activeNotes\<close>, closed in the order they were opened, and for every pitch the
  track holds as many notes as there are events that opened one.
\<close>

theorem no_dangling_notes:
  assumes "msgs \<noteq> []"
  shows "\<exists>tr. exportMIDI_track msgs = Some tr
           \<and> list_all duration_ok tr
           \<and> (\<forall>k. length (notes_of k tr) = length (opens_of k msgs))
           \<and> tr = track (encode_loop (timestamp (hd msgs)) msgs)
                  @ map (\<lambda>p. AddNote (fst p) (ni_startTime (snd p))
                           (max (1 / 1000)
                              (of_int (timestamp (last msgs) - timestamp (hd msgs)) / 1000
                                 - ni_startTime (snd p)))
                           (ni_velocity (snd p)) (ni_channel (snd p)))
                      (activeNotes (encode_loop (timestamp (hd msgs)) msgs))
           \<and> mset (note_spans tr)
               = mset (expected_spans (timestamp (hd msgs)) (end_seconds msgs) msgs)
           \<and> (\<forall>pre r rest. msgs = pre @ r # rest \<longrightarrow> is_open r \<longrightarrow>
                 opened_span (timestamp (hd msgs)) (end_seconds msgs) r rest
                   \<in> set (note_spans tr))
           \<and> (\<forall>pre r rest. msgs = pre @ r # rest \<longrightarrow> is_open r \<longrightarrow>
                 find (touches (msg_note (rmsg r))) rest = None \<longrightarrow>
                 (msg_note (rmsg r), event_time (timestamp (hd msgs)) r,
                  max (1 / 1000) (end_seconds msgs - event_time (timestamp (hd msgs)) r),
                  js_or (msg_velocity (rmsg r)) 100) \<in> set (note_spans tr))"
proof -
  obtain r0 rs where msgs: "msgs = r0 # rs"
    using assms by (cases msgs) auto
  define t0 where "t0 = timestamp r0"
  define endTime :: rat where "endTime = of_int (timestamp (last msgs) - t0) / 1000"
  define e where "e = encode_loop t0 msgs"
  define tr where "tr = track e @ map (close_remaining endTime) (activeNotes e)"
  have t0: "timestamp (hd msgs) = t0" by (simp add: msgs t0_def)
  have es: "end_seconds msgs = endTime" by (simp add: end_seconds_def endTime_def t0)
  have ex: "exportMIDI_track msgs = Some tr"
    by (simp add: exportMIDI_track_def msgs tr_def e_def endTime_def t0_def Let_def)
  have dur: "list_all duration_ok tr"
    unfolding tr_def e_def encode_loop_def
    by (simp add: fold_process_durations closed_remaining_durations)
  have dist: "distinct (map fst (activeNotes e))"
    unfolding e_def encode_loop_def by (rule fold_process_distinct) simp
  have cnt: "length (notes_of k tr) = length (opens_of k msgs)" for k
  proof -
    have "length (notes_of k tr)
            = length (notes_of k (track e)) + active_count k e"
      using closed_remaining_count [OF dist, of k endTime]
      by (simp add: tr_def notes_of_def active_count_def)
    also have "\<dots> = length (opens_of k msgs)"
      using fold_process_count [of k t0 msgs "\<lparr>track = [], activeNotes = []\<rparr>"]
      by (simp add: e_def encode_loop_def notes_of_def active_count_def)
    finally show ?thesis .
  qed
  have shape: "tr = track (encode_loop (timestamp (hd msgs)) msgs)
                  @ map (\<lambda>p. AddNote (fst p) (ni_startTime (snd p))
                           (max (1 / 1000)
                              (of_int (timestamp (last msgs) - timestamp (hd msgs)) / 1000
                                 - ni_startTime (snd p)))
                           (ni_velocity (snd p)) (ni_channel (snd p)))
                      (activeNotes (encode_loop (timestamp (hd msgs)) msgs))"
    by (simp add: tr_def e_def t0_def endTime_def msgs close_remaining_def min_duration_def)
  have spans: "mset (note_spans tr) = mset (expected_spans t0 endTime msgs)"
  proof -
    have "mset (note_spans tr)
            = mset (note_spans (track e))
              + image_mset (pending_span t0 endTime []) (mset (activeNotes e))"
      by (simp add: tr_def note_spans_append note_spans_closing [of endTime _ t0])
    also have "\<dots> = mset (expected_spans t0 endTime msgs)"
      using fold_process_spans [of "\<lparr>track = [], activeNotes = []\<rparr>" t0 msgs endTime]
      by (simp add: e_def encode_loop_def)
    finally show ?thesis .
  qed
  have each: "opened_span t0 endTime r rest \<in> set (note_spans tr)"
    if "msgs = pre @ r # rest" and "is_open r" for pre r rest
  proof -
    have "opened_span t0 endTime r rest \<in> set (expected_spans t0 endTime msgs)"
      unfolding that(1) by (rule opened_span_expected [OF that(2)])
    then show ?thesis
      using spans by (metis set_mset_mset)
  qed
  have held: "(msg_note (rmsg r), event_time t0 r,
               max (1 / 1000) (endTime - event_time t0 r),
               js_or (msg_velocity (rmsg r)) 100) \<in> set (note_spans tr)"
    if "msgs = pre @ r # rest" and "is_open r"
      and "find (touches (msg_note (rmsg r))) rest = None" for pre r rest
    using each [OF that(1,2)] that(3) by (simp add: opened_span_def closing_time_def)
  from ex dur cnt shape spans each held show ?thesis
    unfolding t0 es by blast
qed

theorem no_dangling_notes_witness:
  "sustained_log \<noteq> []
   \<and> is_open (hd sustained_log)
   \<and> find (touches (msg_note (rmsg (hd sustained_log)))) (tl sustained_log) = None
   \<and> exportMIDI_track sustained_log =
       Some [AddNote (Some 64) (1 / 5) (1 / 2) 90 0, AddCC (Some 64) (Some 0) 1 0,
             AddNote (Some 60) 0 1 100 0]
   \<and> expected_spans (timestamp (hd sustained_log)) (end_seconds sustained_log) sustained_log
       = [(Some 60, 0, 1, 100), (Some 64, 1 / 5, 1 / 2, 90)]
   \<and> (Some 60, 0, 1, 100)
       \<in> set (note_spans [AddNote (Some 64) (1 / 5) (1 / 2) 90 0, AddCC (Some 64) (Some 0) 1 0,
                           AddNote (Some 60) 0 1 100 0])"
proof -
  have ne: "sustained_log \<noteq> []" by (simp add: sustained_log_def)
  have op: "is_open (hd sustained_log)"
    by (simp add: sustained_log_def is_open_def note_msg_def js_gt0_def)
  have nf: "find (touches (msg_note (rmsg (hd sustained_log)))) (tl sustained_log) = None"
    by (simp add: sustained_log_def touches_def note_msg_def)
  have sp: "sustained_log = [] @ hd sustained_log # tl sustained_log"
    using ne by simp
  have ev: "event_time (timestamp (hd sustained_log)) (hd sustained_log) = 0"
    by (simp add: event_time_def)
  have en: "end_seconds sustained_log = 1"
    by (simp add: end_seconds_def sustained_log_def)
  have ex: "expected_spans 0 1 sustained_log = [(Some 60, 0, 1, 100), (Some 64, 1 / 5, 1 / 2, 90)]"
    by (simp add: sustained_log_def is_open_def is_close_def touches_def opened_span_def
        closing_time_def event_time_def note_msg_def js_gt0_def js_or_def)
  have t0: "timestamp (hd sustained_log) = 0" by (simp add: sustained_log_def)
  from no_dangling_notes [OF ne] obtain tr where
    tr: "exportMIDI_track sustained_log = Some tr"
    and held: "\<forall>pre r rest. sustained_log = pre @ r # rest \<longrightarrow> is_open r \<longrightarrow>
                 find (touches (msg_note (rmsg r))) rest = None \<longrightarrow>
                 (msg_note (rmsg r), event_time (timestamp (hd sustained_log)) r,
                  max (1 / 1000)
                    (end_seconds sustained_log - event_time (timestamp (hd sustained_log)) r),
                  js_or (msg_velocity (rmsg r)) 100) \<in> set (note_spans tr)"
    by blast
  from held sp op nf
  have "(msg_note (rmsg (hd sustained_log)),
         event_time (timestamp (hd sustained_log)) (hd sustained_log),
         max (1 / 1000)
           (end_seconds sustained_log
              - event_time (timestamp (hd sustained_log)) (hd sustained_log)),
         js_or (msg_velocity (rmsg (hd sustained_log))) 100) \<in> set (note_spans tr)"
    by blast
  then have mem: "(Some 60, 0, 1, 100) \<in> set (note_spans tr)"
    by (simp add: ev en) (simp add: sustained_log_def note_msg_def js_or_def)
  have trq: "tr = [AddNote (Some 64) (1 / 5) (1 / 2) 90 0, AddCC (Some 64) (Some 0) 1 0,
                   AddNote (Some 60) 0 1 100 0]"
    using tr sustained_track by simp
  show ?thesis
    using ne op nf mem ex sustained_track unfolding trq t0 en by simp
qed

section \<open>Recording and replay: theorems\<close>

lemma fold_clearTimeout:
  "fold clearTimeout hs w = w\<lparr>timers := filter (\<lambda>t. fst t \<notin> set hs) (timers w)\<rparr>"
proof (induction hs arbitrary: w)
  case Nil
  show ?case by simp
next
  case (Cons h hs)
  have "fold clearTimeout (h # hs) w
          = (clearTimeout h w)\<lparr>timers := filter (\<lambda>t. fst t \<notin> set hs) (timers (clearTimeout h w))\<rparr>"
    by (simp add: Cons.IH)
  also have "\<dots> = w\<lparr>timers := filter (\<lambda>t. fst t \<notin> set (h # hs)) (timers w)\<rparr>"
    by (simp add: clearTimeout_def conj_commute)
  finally show ?case .
qed

lemma clear_playback_timers_eq:
  "clear_playback_timers w =
     w\<lparr>timers := kept_timers w, playbackTimeouts := [], playbackCompleteTimeout := None\<rparr>"
  by (cases "playbackCompleteTimeout w")
     (auto simp: clear_playback_timers_def fold_clearTimeout kept_timers_def clearTimeout_def
        Let_def intro: filter_cong)

lemma schedule_messages_eq:
  "schedule_messages i rs w =
     w\<lparr>timers := timers w @ emit_timers (next_handle w) i rs,
       next_handle := next_handle w + length rs,
       playbackTimeouts := playbackTimeouts w @ [next_handle w..<next_handle w + length rs]\<rparr>"
proof (induction rs arbitrary: i w)
  case Nil
  show ?case by simp
next
  case (Cons r rs)
  show ?case
    by (simp add: Cons.IH setTimeout_def upt_conv_Cons del: upt_Suc)
qed

lemma playBack_starts:
  assumes "state w \<noteq> Playback" and "recordedMessages w \<noteq> []"
  shows "playBack w =
           w\<lparr>state := Playback,
             console := console w @ [Log_PlayingBack (length (recordedMessages w))],
             timers := kept_timers w
                @ emit_timers (next_handle w) 0 (recordedMessages w)
                @ [(next_handle w + length (recordedMessages w),
                    timestamp (last (recordedMessages w)) + 100, Complete)],
             next_handle := Suc (next_handle w + length (recordedMessages w)),
             playbackTimeouts := [next_handle w..<next_handle w + length (recordedMessages w)],
             playbackCompleteTimeout := Some (next_handle w + length (recordedMessages w))\<rparr>"
  using assms
  by (simp add: playBack_def clear_playback_timers_eq schedule_messages_eq setTimeout_def
      Let_def kept_timers_def)

subsection \<open>The sample runs, evaluated\<close>

lemmas handler_defs =
  run_def handleMIDIMessage_def handleKey_def startRecording_def recordMessage_def
  stopRecording_def playBack_def stopPlayback_def clear_playback_timers_def
  setTimeout_def clearTimeout_def Date_now_def start_number_def fire_def Let_def

lemma take_world:
  "run demo_clock take_trace initial_world =
     \<lparr>state = Listening, recordedMessages = take_log, recordingStartTime = Some 1000,
      playbackTimeouts = [], playbackCompleteTimeout = None, timers = [], next_handle = 0,
      sent = [],
      console = [Log_Recording, Log_RecordingStopped 1000 2, Log_Listening],
      files = [], reads = 4\<rparr>"
  by (simp add: handler_defs take_trace_def take_log_def initial_world_def demo_clock_def)

lemma recording_world:
  "run demo_clock recording_trace initial_world =
     \<lparr>state = Recording, recordedMessages = take_log, recordingStartTime = Some 1000,
      playbackTimeouts = [], playbackCompleteTimeout = None, timers = [], next_handle = 0,
      sent = [], console = [Log_Recording], files = [], reads = 3\<rparr>"
  by (simp add: handler_defs recording_trace_def take_log_def initial_world_def demo_clock_def)

lemma preempt_world:
  "run demo_clock preempt_trace initial_world =
     \<lparr>state = Recording,
      recordedMessages = [\<lparr>rtype = Noteon, rmsg = note_msg 0 62 80, timestamp = 0\<rparr>],
      recordingStartTime = Some 3100,
      playbackTimeouts = [0, 1], playbackCompleteTimeout = Some 2,
      timers = [(1, 500, Emit 1 \<lparr>rtype = Noteoff, rmsg = note_msg 0 60 0, timestamp = 500\<rparr>),
                (2, 600, Complete)],
      next_handle = 3,
      sent = [(Noteon, note_msg 0 60 100)],
      console = [Log_Recording, Log_RecordingStopped 1000 2, Log_Listening,
                 Log_PlayingBack 2, Log_Recording],
      files = [], reads = 6\<rparr>"
  by (simp add: handler_defs preempt_trace_def initial_world_def demo_clock_def)

text \<open>
  C6. The play command with an empty log, and the play command during playback, only
  print a warning (\<open>No recorded MIDI to play\<close>, respectively \<open>Already playing back\<close>):
  the state, the log, the pending timers and everything else stay as they were, so
  nothing is scheduled and a running replay is not restarted.
\<close>

theorem play_without_effect:
  assumes "state w = Playback \<or> recordedMessages w = []"
  shows "handleKey clk ''p'' w =
           w\<lparr>console := console w @
                [if state w = Playback then Warn_AlreadyPlaying else Warn_NoRecordedToPlay]\<rparr>
         \<and> state (handleKey clk ''p'' w) = state w
         \<and> recordedMessages (handleKey clk ''p'' w) = recordedMessages w
         \<and> timers (handleKey clk ''p'' w) = timers w
         \<and> sent (handleKey clk ''p'' w) = sent w"
  using assms by (auto simp: handleKey_def playBack_def)

theorem play_without_effect_witness:
  "(state initial_world = Playback \<or> recordedMessages initial_world = [])
   \<and> handleKey demo_clock ''p'' initial_world
       = initial_world\<lparr>console := [Warn_NoRecordedToPlay]\<rparr>
   \<and> state (handleKey demo_clock ''p'' initial_world) = Listening
   \<and> timers (handleKey demo_clock ''p'' initial_world) = []"
  using play_without_effect [of initial_world demo_clock]
  by (simp add: initial_world_def)

text \<open>
  C10. The play command during recording with a non-empty log is accepted: the state
  goes from recording straight to playback, the log is kept, and one emission timer per
  recorded message plus the completion timer are scheduled.
\<close>

theorem play_while_recording:
  assumes "state w = Recording" and "recordedMessages w \<noteq> []"
  shows "state (handleKey clk ''p'' w) = Playback
         \<and> recordedMessages (handleKey clk ''p'' w) = recordedMessages w
         \<and> timers (handleKey clk ''p'' w) =
             kept_timers w
             @ emit_timers (next_handle w) 0 (recordedMessages w)
             @ [(next_handle w + length (recordedMessages w),
                 timestamp (last (recordedMessages w)) + 100, Complete)]"
proof -
  have "state w \<noteq> Playback" using assms(1) by simp
  from playBack_starts [OF this assms(2)] show ?thesis
    by (simp add: handleKey_def)
qed

theorem play_while_recording_witness:
  "state (run demo_clock recording_trace initial_world) = Recording
   \<and> recordedMessages (run demo_clock recording_trace initial_world) \<noteq> []
   \<and> state (handleKey demo_clock ''p'' (run demo_clock recording_trace initial_world))
       = Playback
   \<and> timers (handleKey demo_clock ''p'' (run demo_clock recording_trace initial_world))
       = [(0, 0, Emit 0 \<lparr>rtype = Noteon, rmsg = note_msg 0 60 100, timestamp = 0\<rparr>),
          (1, 500, Emit 1 \<lparr>rtype = Noteoff, rmsg = note_msg 0 60 0, timestamp = 500\<rparr>),
          (2, 600, Complete)]"
  using play_while_recording [of "run demo_clock recording_trace initial_world" demo_clock]
  by (simp add: recording_world take_log_def kept_timers_def)

lemma run_append: "run clk (xs @ ys) w = run clk ys (run clk xs w)"
  by (simp add: run_def)

lemma run_Cons: "run clk (x # xs) w = run clk xs (dispatch clk x w)"
  by (simp add: run_def)

lemma run_Nil: "run clk [] w = w"
  by (simp add: run_def)

lemma emit_timers_handles:
  "t \<in> set (emit_timers h i rs) \<Longrightarrow> h \<le> fst t \<and> fst t < h + length rs"
  by (induction rs arbitrary: h i) fastforce+

lemma find_absent: "\<forall>t\<in>set xs. \<not> P t \<Longrightarrow> find P (xs @ ys) = find P ys"
  by (induction xs) auto

lemma filter_all: "\<forall>t\<in>set xs. P t \<Longrightarrow> filter P xs = xs"
  by (induction xs) auto

lemma fire_first_emission:
  assumes tm: "timers v = old @ (h, d, Emit i r) # later"
    and old: "\<forall>t\<in>set old. fst t \<noteq> h"
    and later: "\<forall>t\<in>set later. fst t \<noteq> h"
  shows "fire h ok v =
           (if ok then v\<lparr>timers := old @ later, sent := sent v @ [(rtype r, rmsg r)]\<rparr>
            else v\<lparr>timers := old @ later, console := console v @ [Err_PlayingMessage i]\<rparr>)"
proof -
  have f: "find (\<lambda>t. fst t = h) (timers v) = Some (h, d, Emit i r)"
    using old by (simp add: tm find_absent)
  have g: "filter (\<lambda>t. fst t \<noteq> h) (timers v) = old @ later"
    using old later by (simp add: tm filter_all)
  show ?thesis by (simp add: fire_def f g)
qed

lemma fire_emissions:
  assumes "timers v = old @ emit_timers h i rs @ rest"
    and "\<forall>t\<in>set old. fst t < h"
    and "\<forall>t\<in>set rest. h + length rs \<le> fst t"
    and "length oks = length rs"
  shows "run clk (fire_in_order h oks) v =
           v\<lparr>timers := old @ rest, sent := sent v @ delivered rs oks,
             console := console v @ failures i oks\<rparr>"
  using assms
proof (induction rs arbitrary: h i oks v)
  case Nil
  then show ?case by (simp add: run_Nil)
next
  case (Cons r rs)
  from Cons.prems(4) obtain ok oks' where oks: "oks = ok # oks'" and len: "length oks' = length rs"
    by (cases oks) auto
  define later where "later = emit_timers (Suc h) (Suc i) rs @ rest"
  have tm: "timers v = old @ (h, timestamp r, Emit i r) # later"
    using Cons.prems(1) by (simp add: later_def)
  have o: "\<forall>t\<in>set old. fst t \<noteq> h"
    using Cons.prems(2) by auto
  have l: "\<forall>t\<in>set later. fst t \<noteq> h"
    using Cons.prems(3) by (auto simp: later_def dest: emit_timers_handles)
  define v1 where "v1 = fire h ok v"
  have v1: "v1 = (if ok then v\<lparr>timers := old @ later, sent := sent v @ [(rtype r, rmsg r)]\<rparr>
                  else v\<lparr>timers := old @ later, console := console v @ [Err_PlayingMessage i]\<rparr>)"
    unfolding v1_def by (rule fire_first_emission [OF tm o l])
  have t1: "timers v1 = old @ emit_timers (Suc h) (Suc i) rs @ rest"
    by (simp add: v1 later_def)
  have o1: "\<forall>t\<in>set old. fst t < Suc h"
    using Cons.prems(2) by auto
  have r1: "\<forall>t\<in>set rest. Suc h + length rs \<le> fst t"
    using Cons.prems(3) by auto
  have "run clk (fire_in_order h oks) v = run clk (fire_in_order (Suc h) oks') v1"
    by (simp add: oks run_Cons v1_def)
  also have "\<dots> = v1\<lparr>timers := old @ rest, sent := sent v1 @ delivered rs oks',
                       console := console v1 @ failures (Suc i) oks'\<rparr>"
    by (rule Cons.IH [OF t1 o1 r1 len])
  also have "\<dots> = v\<lparr>timers := old @ rest, sent := sent v @ delivered (r # rs) oks,
                       console := console v @ failures i oks\<rparr>"
    by (simp add: v1 oks)
  finally show ?case .
qed

lemma fire_completion:
  assumes "timers v = old @ [(h, d, Complete)]" and "\<forall>t\<in>set old. fst t \<noteq> h"
  shows "fire h ok v =
           v\<lparr>timers := old, state := Listening,
             console := console v @ [Log_PlaybackComplete, Log_Listening],
             playbackTimeouts := [], playbackCompleteTimeout := None\<rparr>"
proof -
  have f: "find (\<lambda>t. fst t = h) (timers v) = Some (h, d, Complete)"
    using assms by (simp add: find_absent)
  have g: "filter (\<lambda>t. fst t \<noteq> h) (timers v) = old"
    using assms by (simp add: filter_all)
  show ?thesis by (simp add: fire_def f g)
qed

lemma fire_outcome_confined:
  "(fire h False v)\<lparr>sent := [], console := []\<rparr> = (fire h True v)\<lparr>sent := [], console := []\<rparr>"
proof (cases "find (\<lambda>t. fst t = h) (timers v)")
  case None
  then show ?thesis by (simp add: fire_def)
next
  case (Some t)
  then show ?thesis
    by (cases "snd (snd t)") (simp_all add: fire_def)
qed

lemma kept_timers_fresh:
  "timers_fresh w \<Longrightarrow> \<forall>t\<in>set (kept_timers w). fst t < next_handle w"
  by (auto simp: timers_fresh_def kept_timers_def list_all_iff)

text \<open>
  C7. A failing sink call is confined to its own timer callback. When a replay of any
  non-empty log runs to its end, with the sink failing on any chosen subset of the
  emissions, the sink receives exactly the other messages, in order, one error line is
  printed per failure, the completion callback still runs and the state returns to
  listening. For any single firing, success and failure of the sink call lead to worlds
  that differ only in the sink's contents and the console.
\<close>

theorem sink_failure_isolated:
  assumes fresh: "timers_fresh w"
    and st: "state w \<noteq> Playback"
    and ne: "recordedMessages w \<noteq> []"
    and len: "length oks = length (recordedMessages w)"
  shows "sent (run clk (fire_in_order (next_handle w) oks
                         @ [TimerFires (next_handle w + length oks) okc]) (playBack w))
           = sent w @ delivered (recordedMessages w) oks
       \<and> console (run clk (fire_in_order (next_handle w) oks
                         @ [TimerFires (next_handle w + length oks) okc]) (playBack w))
           = console w @ [Log_PlayingBack (length (recordedMessages w))] @ failures 0 oks
               @ [Log_PlaybackComplete, Log_Listening]
       \<and> state (run clk (fire_in_order (next_handle w) oks
                         @ [TimerFires (next_handle w + length oks) okc]) (playBack w))
           = Listening
       \<and> timers (run clk (fire_in_order (next_handle w) oks
                         @ [TimerFires (next_handle w + length oks) okc]) (playBack w))
           = kept_timers w
       \<and> (fire h False v)\<lparr>sent := [], console := []\<rparr>
           = (fire h True v)\<lparr>sent := [], console := []\<rparr>"
proof -
  define n where "n = length (recordedMessages w)"
  define h0 where "h0 = next_handle w"
  define p where "p = playBack w"
  define rest where "rest = [(h0 + n, timestamp (last (recordedMessages w)) + 100, Complete)]"
  have p: "p = w\<lparr>state := Playback,
             console := console w @ [Log_PlayingBack n],
             timers := kept_timers w @ emit_timers h0 0 (recordedMessages w) @ rest,
             next_handle := Suc (h0 + n),
             playbackTimeouts := [h0..<h0 + n],
             playbackCompleteTimeout := Some (h0 + n)\<rparr>"
    unfolding p_def n_def h0_def rest_def by (rule playBack_starts [OF st ne])
  have tp: "timers p = kept_timers w @ emit_timers h0 0 (recordedMessages w) @ rest"
    by (simp add: p)
  have old: "\<forall>t\<in>set (kept_timers w). fst t < h0"
    unfolding h0_def by (rule kept_timers_fresh [OF fresh])
  have rst: "\<forall>t\<in>set rest. h0 + length (recordedMessages w) \<le> fst t"
    by (simp add: rest_def n_def)
  define q where "q = run clk (fire_in_order h0 oks) p"
  have q: "q = p\<lparr>timers := kept_timers w @ rest,
                 sent := sent p @ delivered (recordedMessages w) oks,
                 console := console p @ failures 0 oks\<rparr>"
    unfolding q_def by (rule fire_emissions [OF tp old rst len])
  have tq: "timers q = kept_timers w @ [(h0 + n, timestamp (last (recordedMessages w)) + 100, Complete)]"
    by (simp add: q rest_def)
  have oldn: "\<forall>t\<in>set (kept_timers w). fst t \<noteq> h0 + n"
    using old by auto
  have fin: "run clk (fire_in_order h0 oks @ [TimerFires (h0 + length oks) okc]) p
               = q\<lparr>timers := kept_timers w, state := Listening,
                   console := console q @ [Log_PlaybackComplete, Log_Listening],
                   playbackTimeouts := [], playbackCompleteTimeout := None\<rparr>"
    using fire_completion [OF tq oldn, of okc]
    by (simp add: run_append run_Cons run_Nil q_def len n_def)
  show ?thesis
    unfolding h0_def [symmetric] p_def [symmetric] fin
    by (simp add: q p n_def fire_outcome_confined)
qed

theorem sink_failure_isolated_witness:
  "timers_fresh (run demo_clock take_trace initial_world)
   \<and> state (run demo_clock take_trace initial_world) \<noteq> Playback
   \<and> recordedMessages (run demo_clock take_trace initial_world) \<noteq> []
   \<and> length [False, True] = length (recordedMessages (run demo_clock take_trace initial_world))
   \<and> sent (run demo_clock [TimerFires 0 False, TimerFires 1 True, TimerFires 2 True]
             (playBack (run demo_clock take_trace initial_world)))
       = [(Noteoff, note_msg 0 60 0)]
   \<and> console (run demo_clock [TimerFires 0 False, TimerFires 1 True, TimerFires 2 True]
             (playBack (run demo_clock take_trace initial_world)))
       = [Log_Recording, Log_RecordingStopped 1000 2, Log_Listening, Log_PlayingBack 2,
          Err_PlayingMessage 0, Log_PlaybackComplete, Log_Listening]
   \<and> state (run demo_clock [TimerFires 0 False, TimerFires 1 True, TimerFires 2 True]
             (playBack (run demo_clock take_trace initial_world))) = Listening"
  using sink_failure_isolated
    [of "run demo_clock take_trace initial_world" "[False, True]" demo_clock True]
  by (simp add: take_world timers_fresh_def take_log_def numeral_2_eq_2)

subsection \<open>Replay interrupted by new input\<close>

text \<open>
  C1. A NoteOn that arrives during playback switches the state to recording and starts
  a new log that holds only that NoteOn, at offset 0 when the two clock readings of the
  handler agree. \<^verbatim>\<open>startRecording\<close> clears no timer, so the timers of the interrupted
  replay stay pending: in the sample run the sink has received one message when the
  NoteOn arrives, and the NoteOff of the old take is still delivered to it when its
  timer fires afterwards.
\<close>

theorem preempted_replay_still_emits:
  "state (run demo_clock preempt_trace initial_world) = Recording
   \<and> recordedMessages (run demo_clock preempt_trace initial_world)
       = [\<lparr>rtype = Noteon, rmsg = note_msg 0 62 80, timestamp = 0\<rparr>]
   \<and> sent (run demo_clock preempt_trace initial_world) = [(Noteon, note_msg 0 60 100)]
   \<and> sent (run demo_clock (preempt_trace @ [TimerFires 1 True]) initial_world)
       = [(Noteon, note_msg 0 60 100), (Noteoff, note_msg 0 60 0)]"
  by (simp add: run_append run_Cons run_Nil preempt_world fire_def)

text \<open>
  C2. The completion callback assigns \<^verbatim>\<open>'listening'\<close> whatever the state is. In the
  sample run the state is recording after the interrupting NoteOn, and listening once
  the completion timer of the interrupted replay has fired.
\<close>

theorem stale_completion_ends_recording:
  "state (run demo_clock preempt_trace initial_world) = Recording
   \<and> state (run demo_clock (preempt_trace @ [TimerFires 1 True, TimerFires 2 True])
             initial_world) = Listening"
  by (simp add: run_append run_Cons run_Nil preempt_world fire_def)

subsection \<open>Offsets in the log\<close>

lemma mono_next_reading: "mono clk \<Longrightarrow> clk k \<le> clk (Suc k)"
  by (simp add: monoD)

lemma recordMessage_ordered:
  assumes "mono clk" and "log_ordered clk w" and "state w = Recording"
  shows "log_ordered clk (recordMessage clk ty m w)"
proof -
  have step: "clk (reads w) \<le> clk (Suc (reads w))"
    using assms(1) by (rule mono_next_reading)
  have bound: "\<forall>r\<in>set (recordedMessages w). timestamp r \<le> clk (reads w) - start_number w"
    using assms(2,3) by (simp add: log_ordered_def list_all_iff)
  have srt: "sorted (map timestamp (recordedMessages w))"
    using assms(2) by (simp add: log_ordered_def)
  show ?thesis
    using step bound srt
    by (auto simp: log_ordered_def recordMessage_def Date_now_def start_number_def Let_def
        sorted_append list_all_iff)
qed

lemma startRecording_ordered:
  assumes "log_ordered clk w"
  shows "log_ordered clk (startRecording clk w) \<and> state (startRecording clk w) = Recording"
  using assms
  by (simp add: log_ordered_def startRecording_def Date_now_def start_number_def Let_def)

lemma handleMIDIMessage_ordered:
  assumes "mono clk" and "log_ordered clk w"
  shows "log_ordered clk (handleMIDIMessage clk ty m w)"
proof -
  have fresh: "log_ordered clk (recordMessage clk ty' m (startRecording clk w))" for ty'
    using startRecording_ordered [OF assms(2)] recordMessage_ordered [OF assms(1)] by blast
  have cont: "state w = Recording \<Longrightarrow> log_ordered clk (recordMessage clk ty m w)"
    by (rule recordMessage_ordered [OF assms])
  show ?thesis
    unfolding handleMIDIMessage_def using fresh cont assms(2) by simp
qed

lemma stopRecording_ordered:
  "log_ordered clk w \<Longrightarrow> log_ordered clk (stopRecording clk w)"
  by (simp add: log_ordered_def stopRecording_def Date_now_def Let_def)

lemma playBack_ordered:
  "log_ordered clk w \<Longrightarrow> log_ordered clk (playBack w)"
proof (cases "state w = Playback \<or> recordedMessages w = []")
  case True
  assume "log_ordered clk w"
  then show ?thesis
    using True by (auto simp: playBack_def log_ordered_def start_number_def)
next
  case False
  assume "log_ordered clk w"
  then show ?thesis
    using False playBack_starts [of w] by (simp add: log_ordered_def)
qed

lemma stopPlayback_ordered:
  "log_ordered clk w \<Longrightarrow> log_ordered clk (stopPlayback w)"
  by (simp add: stopPlayback_def clear_playback_timers_eq log_ordered_def Let_def)

lemma exportMIDI_ordered:
  assumes "mono clk" and "log_ordered clk w"
  shows "log_ordered clk (exportMIDI clk w)"
proof (cases "exportMIDI_track (recordedMessages w)")
  case None
  then show ?thesis
    using assms(2) by (simp add: exportMIDI_def log_ordered_def start_number_def)
next
  case (Some tr)
  have step: "clk (reads w) \<le> clk (Suc (reads w))"
    using assms(1) by (rule mono_next_reading)
  show ?thesis
    using assms(2) step
    by (auto simp: exportMIDI_def Some log_ordered_def start_number_def Date_now_def Let_def
        list_all_iff)
qed

lemma fire_ordered:
  "log_ordered clk w \<Longrightarrow> log_ordered clk (fire h ok w)"
proof (cases "find (\<lambda>t. fst t = h) (timers w)")
  case None
  assume "log_ordered clk w"
  then show ?thesis by (simp add: fire_def None)
next
  case (Some t)
  assume "log_ordered clk w"
  then show ?thesis
    by (cases "snd (snd t)") (simp_all add: fire_def Some log_ordered_def start_number_def)
qed

lemma handleKey_ordered:
  assumes "mono clk" and "log_ordered clk w"
  shows "log_ordered clk (handleKey clk key w)"
  using assms
  by (simp add: handleKey_def stopRecording_ordered stopPlayback_ordered playBack_ordered
      exportMIDI_ordered)

lemma dispatch_ordered:
  assumes "mono clk" and "log_ordered clk w"
  shows "log_ordered clk (dispatch clk stim w)"
  using assms
  by (cases stim) (simp_all add: handleMIDIMessage_ordered handleKey_ordered fire_ordered)

lemma run_ordered:
  assumes "mono clk"
  shows "log_ordered clk w \<Longrightarrow> log_ordered clk (run clk stims w)"
proof (induction stims arbitrary: w)
  case Nil
  then show ?case by (simp add: run_Nil)
next
  case (Cons stim stims)
  then show ?case
    by (simp add: run_Cons dispatch_ordered [OF assms])
qed

lemma initial_ordered: "log_ordered clk initial_world"
  by (simp add: log_ordered_def initial_world_def)

text \<open>
  C9. Under a clock whose successive readings never decrease, after any sequence of
  device messages, keys and timer firings from the initial state, the offsets of the
  stored events are non-decreasing in storage order.
\<close>

theorem offsets_non_decreasing:
  assumes "mono clk"
  shows "sorted (map timestamp (recordedMessages (run clk stims initial_world)))"
  using run_ordered [OF assms initial_ordered, of stims]
  by (simp add: log_ordered_def)

theorem offsets_non_decreasing_witness:
  "mono demo_clock
   \<and> sorted (map timestamp (recordedMessages (run demo_clock recording_trace initial_world)))
   \<and> map timestamp (recordedMessages (run demo_clock recording_trace initial_world)) = [0, 500]"
  using offsets_non_decreasing [of demo_clock recording_trace]
  by (simp add: recording_world take_log_def mono_def demo_clock_def)

subsection \<open>Pending timers of the reachable states\<close>

text \<open>
  Every state the program can reach satisfies \<open>timers_fresh\<close>, the assumption made on
  the state in which a replay starts.
\<close>

lemma handleMIDIMessage_timers:
  "timers (handleMIDIMessage clk ty m w) = timers w
   \<and> next_handle (handleMIDIMessage clk ty m w) = next_handle w"
  by (simp add: handleMIDIMessage_def startRecording_def recordMessage_def Date_now_def Let_def)

lemma run_callback_timers:
  "timers (run_callback cb ok w) = timers w
   \<and> next_handle (run_callback cb ok w) = next_handle w"
  by (cases cb) simp_all

lemma timers_fresh_filter:
  "timers_fresh w \<Longrightarrow> timers_fresh (w\<lparr>timers := filter P (timers w)\<rparr>)"
  by (simp add: timers_fresh_def list_all_iff)

lemma fire_fresh: "timers_fresh w \<Longrightarrow> timers_fresh (fire h ok w)"
proof (cases "find (\<lambda>t. fst t = h) (timers w)")
  case None
  assume "timers_fresh w"
  then show ?thesis by (simp add: fire_def None)
next
  case (Some t)
  assume "timers_fresh w"
  then have "timers_fresh (w\<lparr>timers := filter (\<lambda>t. fst t \<noteq> h) (timers w)\<rparr>)"
    by (rule timers_fresh_filter)
  then show ?thesis
    using run_callback_timers
      [of "snd (snd t)" ok "w\<lparr>timers := filter (\<lambda>t. fst t \<noteq> h) (timers w)\<rparr>"]
    by (simp add: fire_def Some timers_fresh_def)
qed

lemma playBack_fresh:
  assumes "timers_fresh w"
  shows "timers_fresh (playBack w)"
proof (cases "state w = Playback \<or> recordedMessages w = []")
  case True
  then show ?thesis
    using assms by (auto simp: playBack_def timers_fresh_def)
next
  case False
  define n where "n = length (recordedMessages w)"
  define h0 where "h0 = next_handle w"
  have old: "\<forall>t\<in>set (kept_timers w). fst t < Suc (h0 + n)"
    using kept_timers_fresh [OF assms] by (auto simp: h0_def)
  have new: "\<forall>t\<in>set (emit_timers h0 0 (recordedMessages w)). fst t < Suc (h0 + n)"
  proof
    fix t assume "t \<in> set (emit_timers h0 0 (recordedMessages w))"
    from emit_timers_handles [OF this] show "fst t < Suc (h0 + n)"
      by (simp add: n_def)
  qed
  from False have "playBack w =
           w\<lparr>state := Playback,
             console := console w @ [Log_PlayingBack n],
             timers := kept_timers w @ emit_timers h0 0 (recordedMessages w)
                @ [(h0 + n, timestamp (last (recordedMessages w)) + 100, Complete)],
             next_handle := Suc (h0 + n),
             playbackTimeouts := [h0..<h0 + n],
             playbackCompleteTimeout := Some (h0 + n)\<rparr>"
    unfolding n_def h0_def by (intro playBack_starts) simp_all
  then show ?thesis
    using old new by (simp add: timers_fresh_def list_all_iff ball_Un)
qed

lemma stopRecording_fresh: "timers_fresh w \<Longrightarrow> timers_fresh (stopRecording clk w)"
  by (simp add: stopRecording_def Date_now_def Let_def timers_fresh_def)

lemma stopPlayback_fresh:
  assumes "timers_fresh w"
  shows "timers_fresh (stopPlayback w)"
proof (cases "state w = Playback")
  case True
  have "list_all (\<lambda>t. fst t < next_handle w) (kept_timers w)"
    using kept_timers_fresh [OF assms] by (simp add: list_all_iff)
  then show ?thesis
    using True by (simp add: stopPlayback_def clear_playback_timers_eq timers_fresh_def)
next
  case False
  then show ?thesis
    using assms by (simp add: stopPlayback_def)
qed

lemma exportMIDI_fresh: "timers_fresh w \<Longrightarrow> timers_fresh (exportMIDI clk w)"
  by (cases "exportMIDI_track (recordedMessages w)")
     (simp_all add: exportMIDI_def Date_now_def Let_def timers_fresh_def)

lemma handleKey_fresh: "timers_fresh w \<Longrightarrow> timers_fresh (handleKey clk key w)"
  by (simp add: handleKey_def playBack_fresh stopRecording_fresh stopPlayback_fresh
      exportMIDI_fresh)

lemma handleMIDIMessage_fresh:
  "timers_fresh w \<Longrightarrow> timers_fresh (handleMIDIMessage clk ty m w)"
  using handleMIDIMessage_timers [of clk ty m w] by (simp add: timers_fresh_def)

lemma dispatch_fresh: "timers_fresh w \<Longrightarrow> timers_fresh (dispatch clk stim w)"
  by (cases stim) (simp_all add: handleKey_fresh fire_fresh handleMIDIMessage_fresh)

lemma run_fresh: "timers_fresh w \<Longrightarrow> timers_fresh (run clk stims w)"
proof (induction stims arbitrary: w)
  case Nil
  then show ?case by (simp add: run_Nil)
next
  case (Cons stim stims)
  then show ?case
    by (simp add: run_Cons dispatch_fresh)
qed

lemma reachable_timers_fresh: "timers_fresh (run clk stims initial_world)"
  by (rule run_fresh) (simp add: timers_fresh_def initial_world_def)

end
